theory Spec2Isabelle
  imports Complex_Main "HOL-Library.AList"
begin

unbundle bit_operations_syntax

section \<open>Python values: errors, bytes, integers\<close>

text \<open>
  Exceptions of the Python source are values: a function that may raise returns
  \<open>py_error + 'a\<close>, with \<open>Inl\<close> carrying the class of the exception. Messages are
  not modelled. Python integers are unbounded and are modelled by \<open>int\<close>; a value of
  type \<open>bytes\<close> is a list of numbers below 256.
\<close>

datatype py_error = ValidationError | ValueError | TypeError | KeyError | OverflowError

type_synonym byte = nat

text \<open>\<open>int.bit_length()\<close> of a non-negative integer.\<close>

fun bit_length :: "nat \<Rightarrow> nat" where
  "bit_length n = (if n = 0 then 0 else Suc (bit_length (n div 2)))"

declare bit_length.simps [simp del]

text \<open>
  \<open>int.to_bytes(length, byteorder)\<close> (unsigned) and \<open>int.from_bytes(data, byteorder)\<close>:
  \<open>to_bytes\<close> raises OverflowError for a negative value or one that does not fit.
  The flag is True for \<open>byteorder='big'\<close>.
\<close>

primrec le_bytes :: "int \<Rightarrow> nat \<Rightarrow> byte list" where
  "le_bytes v 0 = []"
| "le_bytes v (Suc n) = nat (v mod 256) # le_bytes (v div 256) n"

definition int_to_bytes :: "int \<Rightarrow> nat \<Rightarrow> bool \<Rightarrow> py_error + byte list" where
  "int_to_bytes v len big =
     (if v < 0 \<or> 256 ^ len \<le> v then Inl OverflowError
      else Inr (if big then rev (le_bytes v len) else le_bytes v len))"

definition int_from_bytes :: "byte list \<Rightarrow> bool \<Rightarrow> int" where
  "int_from_bytes bs big =
     foldr (\<lambda>b acc. int b + 256 * acc) (if big then rev bs else bs) 0"

section \<open>Compact difficulty encoding (src/mining/miner.py)\<close>

text \<open>
  Python's \<open>>>\<close>, \<open><<\<close>, \<open>&\<close> and \<open>|\<close> on unbounded integers are
  \<open>drop_bit\<close>, \<open>push_bit\<close>, \<open>AND\<close> and \<open>OR\<close> on \<open>int\<close>.
\<close>

definition compact_bits_to_target :: "int \<Rightarrow> py_error + int" where
  "compact_bits_to_target bits =
     (if bits \<le> 0 then Inl ValueError
      else
        let exponent = drop_bit 24 bits AND 0xFF;
            coefficient = bits AND 0x7FFFFF;
            coefficient = (if bits AND 0x800000 \<noteq> 0 then - coefficient else coefficient);
            target = (if exponent \<le> 3
                      then drop_bit (nat (8 * (3 - exponent))) coefficient
                      else push_bit (nat (8 * (exponent - 3))) coefficient)
        in if target < 0 then Inr 0 else Inr target)"

definition target_to_compact_bits :: "int \<Rightarrow> py_error + int" where
  "target_to_compact_bits target =
     (if target < 0 then Inl ValueError
      else if target = 0 then Inr 0
      else
        let byte_length = (bit_length (nat target) + 7) div 8
        in case int_to_bytes target byte_length True of
             Inl e \<Rightarrow> Inl e
           | Inr target_bytes \<Rightarrow>
               let exponent = length target_bytes;
                   coefficient =
                     (if 3 \<le> exponent then int_from_bytes (take 3 target_bytes) True
                      else int_from_bytes (target_bytes @ replicate (3 - exponent) 0) True);
                   shifted = (coefficient AND 0x800000 \<noteq> 0);
                   coefficient = (if shifted then drop_bit 8 coefficient else coefficient);
                   exponent = (if shifted then exponent + 1 else exponent)
               in Inr (push_bit 24 (int exponent) OR (coefficient AND 0x7FFFFF)))"

text \<open>
  The two conditions that the specification names for a canonical encoding: the sign bit
  (bit 23) is clear, and the exponent is in shortest form, that is, the mantissa has a
  non-zero top byte or a second byte with the high bit set, so that no smaller exponent
  can carry the same leading digits. The value is a positive 32-bit number.
\<close>

definition spec_canonical_bits :: "int \<Rightarrow> bool" where
  "spec_canonical_bits b =
     (0 < b \<and> b < 2 ^ 32 \<and> b AND 0x800000 = 0 \<and> 0x8000 \<le> b AND 0x7FFFFF)"

text \<open>
  The encodings that the code maps back to themselves satisfy one condition more: for an
  exponent below 3 the decoder shifts the low bytes of the mantissa out, so these bytes
  must be zero.
\<close>

definition canonical_bits :: "int \<Rightarrow> bool" where
  "canonical_bits b =
     (0 < b \<and> b < 2 ^ 32 \<and> b AND 0x800000 = 0 \<and> 0x8000 \<le> b AND 0x7FFFFF \<and>
      (let e = drop_bit 24 b AND 0xFF
       in e < 3 \<longrightarrow> (b AND 0x7FFFFF) mod 256 ^ nat (3 - e) = 0))"

section \<open>Encoding primitives (src/utils/encoding.py)\<close>

text \<open>
  \<open>bytes.hex()\<close> yields two lowercase digits per byte. \<open>bytes.fromhex\<close> accepts digits of
  either case, skips ASCII whitespace between (not inside) byte pairs and raises ValueError
  on anything else.
\<close>

definition hex_digit :: "nat \<Rightarrow> char" where
  "hex_digit n = ''0123456789abcdef'' ! (n mod 16)"

definition bytes_to_hex :: "byte list \<Rightarrow> string" where
  "bytes_to_hex data = concat (map (\<lambda>b. [hex_digit (b div 16), hex_digit (b mod 16)]) data)"

definition hex_value :: "char \<Rightarrow> nat option" where
  "hex_value c =
     (let n = of_char c :: nat in
      if 48 \<le> n \<and> n \<le> 57 then Some (n - 48)
      else if 97 \<le> n \<and> n \<le> 102 then Some (n - 87)
      else if 65 \<le> n \<and> n \<le> 70 then Some (n - 55)
      else None)"

definition is_space :: "char \<Rightarrow> bool" where
  "is_space c = (of_char c \<in> {9, 10, 11, 12, 13, 32 :: nat})"

fun bytes_fromhex :: "string \<Rightarrow> py_error + byte list" where
  "bytes_fromhex [] = Inr []"
| "bytes_fromhex [c] = (if is_space c then Inr [] else Inl ValueError)"
| "bytes_fromhex (c # d # rest) =
     (if is_space c then bytes_fromhex (d # rest)
      else case (hex_value c, hex_value d) of
             (Some h, Some l) \<Rightarrow>
               (case bytes_fromhex rest of
                  Inl e \<Rightarrow> Inl e
                | Inr bs \<Rightarrow> Inr ((16 * h + l) # bs))
           | _ \<Rightarrow> Inl ValueError)"

definition hex_to_bytes :: "string \<Rightarrow> py_error + byte list" where
  "hex_to_bytes hex_string =
     bytes_fromhex (if take 2 hex_string = ''0x'' \<or> take 2 hex_string = ''0X''
                    then drop 2 hex_string else hex_string)"

definition int_to_little_endian :: "int \<Rightarrow> nat \<Rightarrow> py_error + byte list" where
  "int_to_little_endian v len = int_to_bytes v len False"

definition little_endian_to_int :: "byte list \<Rightarrow> int" where
  "little_endian_to_int data = int_from_bytes data False"

text \<open>The slice \<open>data[a:b]\<close> for offsets \<open>0 \<le> a \<le> b\<close>; it is shorter when data runs out.\<close>

definition slice :: "'a list \<Rightarrow> nat \<Rightarrow> nat \<Rightarrow> 'a list" where
  "slice data a b = take (b - a) (drop a data)"

definition encode_varint :: "int \<Rightarrow> py_error + byte list" where
  "encode_varint v =
     (if v < 0 then Inl ValueError
      else if v < 0xfd then Inr [nat v]
      else if v \<le> 0xffff then
        (case int_to_little_endian v 2 of Inl e \<Rightarrow> Inl e | Inr bs \<Rightarrow> Inr (0xfd # bs))
      else if v \<le> 0xffffffff then
        (case int_to_little_endian v 4 of Inl e \<Rightarrow> Inl e | Inr bs \<Rightarrow> Inr (0xfe # bs))
      else
        (case int_to_little_endian v 8 of Inl e \<Rightarrow> Inl e | Inr bs \<Rightarrow> Inr (0xff # bs)))"

definition decode_varint :: "byte list \<Rightarrow> nat \<Rightarrow> py_error + (int \<times> nat)" where
  "decode_varint data offset =
     (if length data \<le> offset then Inl ValueError
      else
        let first_byte = data ! offset in
        if first_byte < 0xfd then Inr (int first_byte, 1)
        else if first_byte = 0xfd then
          (if length data < offset + 3 then Inl ValueError
           else Inr (little_endian_to_int (slice data (offset + 1) (offset + 3)), 3))
        else if first_byte = 0xfe then
          (if length data < offset + 5 then Inl ValueError
           else Inr (little_endian_to_int (slice data (offset + 1) (offset + 5)), 5))
        else
          (if length data < offset + 9 then Inl ValueError
           else Inr (little_endian_to_int (slice data (offset + 1) (offset + 9)), 9)))"

section \<open>Transactions (src/core/transaction.py)\<close>

record tx_output =
  val :: int
  pubkey_script :: string

record tx_input =
  previous_txid :: string
  previous_output_index :: int
  signature_script :: string
  sequence :: int

text \<open>
  \<open>txid_cache\<close> is the attribute \<open>_txid\<close>: None until the \<open>txid\<close> property is first
  read, or the identifier that \<open>Transaction.from_dict\<close> found in its input.
\<close>

record transaction =
  version :: int
  inputs :: "tx_input list"
  outputs :: "tx_output list"
  locktime :: int
  txid_cache :: "string option"

definition zero_hash :: string where
  "zero_hash = replicate 64 CHR ''0''"

definition output_serialize :: "tx_output \<Rightarrow> py_error + byte list" where
  "output_serialize out =
     (case int_to_little_endian (val out) 8 of
        Inl e \<Rightarrow> Inl e
      | Inr result \<Rightarrow>
          (case hex_to_bytes (pubkey_script out) of
             Inl e \<Rightarrow> Inl e
           | Inr script_bytes \<Rightarrow>
               (case encode_varint (int (length script_bytes)) of
                  Inl e \<Rightarrow> Inl e
                | Inr n \<Rightarrow> Inr (result @ n @ script_bytes))))"

definition output_deserialize :: "byte list \<Rightarrow> nat \<Rightarrow> py_error + (tx_output \<times> nat)" where
  "output_deserialize data offset =
     (let v = little_endian_to_int (slice data offset (offset + 8)) in
      case decode_varint data (offset + 8) of
        Inl e \<Rightarrow> Inl e
      | Inr (script_length, varint_size) \<Rightarrow>
          let off = offset + 8 + varint_size;
              script_bytes = slice data off (off + nat script_length)
          in Inr (\<lparr>val = v, pubkey_script = bytes_to_hex script_bytes\<rparr>,
                  8 + varint_size + nat script_length))"

definition input_serialize :: "tx_input \<Rightarrow> py_error + byte list" where
  "input_serialize inp =
     (case bytes_fromhex (previous_txid inp) of
        Inl e \<Rightarrow> Inl e
      | Inr txid_bytes \<Rightarrow>
          (case int_to_little_endian (previous_output_index inp) 4 of
             Inl e \<Rightarrow> Inl e
           | Inr idx \<Rightarrow>
               (case (if signature_script inp \<noteq> [] then hex_to_bytes (signature_script inp)
                      else Inr []) of
                  Inl e \<Rightarrow> Inl e
                | Inr script_bytes \<Rightarrow>
                    (case encode_varint (int (length script_bytes)) of
                       Inl e \<Rightarrow> Inl e
                     | Inr n \<Rightarrow>
                         (case int_to_little_endian (sequence inp) 4 of
                            Inl e \<Rightarrow> Inl e
                          | Inr sq \<Rightarrow> Inr (rev txid_bytes @ idx @ n @ script_bytes @ sq))))))"

definition input_deserialize :: "byte list \<Rightarrow> nat \<Rightarrow> py_error + (tx_input \<times> nat)" where
  "input_deserialize data offset =
     (let ptxid = bytes_to_hex (rev (slice data offset (offset + 32)));
          idx = little_endian_to_int (slice data (offset + 32) (offset + 36))
      in case decode_varint data (offset + 36) of
           Inl e \<Rightarrow> Inl e
         | Inr (script_length, varint_size) \<Rightarrow>
             let off = offset + 36 + varint_size;
                 script = (if 0 < script_length
                           then bytes_to_hex (slice data off (off + nat script_length))
                           else []);
                 off2 = off + nat script_length;
                 sq = little_endian_to_int (slice data off2 (off2 + 4))
             in Inr (\<lparr>previous_txid = ptxid, previous_output_index = idx,
                       signature_script = script, sequence = sq\<rparr>,
                     36 + varint_size + nat script_length + 4))"

definition input_is_coinbase :: "tx_input \<Rightarrow> bool" where
  "input_is_coinbase inp =
     (previous_txid inp = zero_hash \<and> previous_output_index inp = 0xffffffff)"

text \<open>The loops \<open>for x in xs: result += x.serialize()\<close>; the first exception ends them.\<close>

fun serialize_all :: "('a \<Rightarrow> py_error + byte list) \<Rightarrow> 'a list \<Rightarrow> py_error + byte list" where
  "serialize_all f [] = Inr []"
| "serialize_all f (x # xs) =
     (case f x of
        Inl e \<Rightarrow> Inl e
      | Inr bs \<Rightarrow> (case serialize_all f xs of Inl e \<Rightarrow> Inl e | Inr rest \<Rightarrow> Inr (bs @ rest)))"

text \<open>
  The loops \<open>for _ in range(count): x, consumed = X.deserialize(data, offset); ...\<close>:
  the items read and the offset reached.
\<close>

fun deserialize_n ::
  "(byte list \<Rightarrow> nat \<Rightarrow> py_error + ('a \<times> nat)) \<Rightarrow> byte list \<Rightarrow> nat \<Rightarrow> nat
     \<Rightarrow> py_error + ('a list \<times> nat)" where
  "deserialize_n f data 0 offset = Inr ([], offset)"
| "deserialize_n f data (Suc n) offset =
     (case f data offset of
        Inl e \<Rightarrow> Inl e
      | Inr (x, consumed) \<Rightarrow>
          (case deserialize_n f data n (offset + consumed) of
             Inl e \<Rightarrow> Inl e
           | Inr (xs, off) \<Rightarrow> Inr (x # xs, off)))"

definition tx_serialize :: "transaction \<Rightarrow> py_error + byte list" where
  "tx_serialize tx =
     (case int_to_little_endian (version tx) 4 of
        Inl e \<Rightarrow> Inl e
      | Inr v \<Rightarrow>
          (case encode_varint (int (length (inputs tx))) of
             Inl e \<Rightarrow> Inl e
           | Inr ni \<Rightarrow>
               (case serialize_all input_serialize (inputs tx) of
                  Inl e \<Rightarrow> Inl e
                | Inr ins \<Rightarrow>
                    (case encode_varint (int (length (outputs tx))) of
                       Inl e \<Rightarrow> Inl e
                     | Inr no \<Rightarrow>
                         (case serialize_all output_serialize (outputs tx) of
                            Inl e \<Rightarrow> Inl e
                          | Inr outs \<Rightarrow>
                              (case int_to_little_endian (locktime tx) 4 of
                                 Inl e \<Rightarrow> Inl e
                               | Inr lt \<Rightarrow> Inr (v @ ni @ ins @ no @ outs @ lt)))))))"

definition tx_deserialize :: "byte list \<Rightarrow> nat \<Rightarrow> py_error + (transaction \<times> nat)" where
  "tx_deserialize data offset =
     (let v = little_endian_to_int (slice data offset (offset + 4)) in
      case decode_varint data (offset + 4) of
        Inl e \<Rightarrow> Inl e
      | Inr (input_count, vs1) \<Rightarrow>
          (case deserialize_n input_deserialize data (nat input_count) (offset + 4 + vs1) of
             Inl e \<Rightarrow> Inl e
           | Inr (ins, off1) \<Rightarrow>
               (case decode_varint data off1 of
                  Inl e \<Rightarrow> Inl e
                | Inr (output_count, vs2) \<Rightarrow>
                    (case deserialize_n output_deserialize data (nat output_count) (off1 + vs2) of
                       Inl e \<Rightarrow> Inl e
                     | Inr (outs, off2) \<Rightarrow>
                         let lt = little_endian_to_int (slice data off2 (off2 + 4))
                         in Inr (\<lparr>version = v, inputs = ins, outputs = outs, locktime = lt,
                                   txid_cache = None\<rparr>,
                                 off2 + 4 - offset)))))"

definition tx_is_coinbase :: "transaction \<Rightarrow> bool" where
  "tx_is_coinbase tx = (length (inputs tx) = 1 \<and> input_is_coinbase (inputs tx ! 0))"

section \<open>Block headers and blocks (src/core/block.py, src/utils/serialization.py)\<close>

text \<open>\<open>hash_cache\<close> is the attribute \<open>_hash\<close>, \<open>height\<close> the attribute \<open>_height\<close>.\<close>

record block_header =
  hversion :: int
  previous_block_hash :: string
  merkle_root :: string
  timestamp :: int
  difficulty_bits :: int
  nonce :: int
  hash_cache :: "string option"

record block =
  header :: block_header
  transactions :: "transaction list"
  height :: "int option"

definition header_serialize :: "block_header \<Rightarrow> py_error + byte list" where
  "header_serialize h =
     (case int_to_little_endian (hversion h) 4 of
        Inl e \<Rightarrow> Inl e
      | Inr v \<Rightarrow>
          (case hex_to_bytes (previous_block_hash h) of
             Inl e \<Rightarrow> Inl e
           | Inr prev \<Rightarrow>
               (case hex_to_bytes (merkle_root h) of
                  Inl e \<Rightarrow> Inl e
                | Inr mroot \<Rightarrow>
                    (case int_to_little_endian (timestamp h) 4 of
                       Inl e \<Rightarrow> Inl e
                     | Inr ts \<Rightarrow>
                         (case int_to_little_endian (difficulty_bits h) 4 of
                            Inl e \<Rightarrow> Inl e
                          | Inr bits \<Rightarrow>
                              (case int_to_little_endian (nonce h) 4 of
                                 Inl e \<Rightarrow> Inl e
                               | Inr nc \<Rightarrow> Inr (v @ rev prev @ rev mroot @ ts @ bits @ nc)))))))"

definition header_deserialize :: "byte list \<Rightarrow> nat \<Rightarrow> py_error + (block_header \<times> nat)" where
  "header_deserialize data offset =
     (if int (length data) - int offset < 80 then Inl ValueError
      else Inr (\<lparr>hversion = little_endian_to_int (slice data offset (offset + 4)),
                 previous_block_hash = bytes_to_hex (rev (slice data (offset + 4) (offset + 36))),
                 merkle_root = bytes_to_hex (rev (slice data (offset + 36) (offset + 68))),
                 timestamp = little_endian_to_int (slice data (offset + 68) (offset + 72)),
                 difficulty_bits = little_endian_to_int (slice data (offset + 72) (offset + 76)),
                 nonce = little_endian_to_int (slice data (offset + 76) (offset + 80)),
                 hash_cache = None\<rparr>, 80))"

definition serialize_block :: "block \<Rightarrow> py_error + byte list" where
  "serialize_block b =
     (case header_serialize (header b) of
        Inl e \<Rightarrow> Inl e
      | Inr h \<Rightarrow>
          (case encode_varint (int (length (transactions b))) of
             Inl e \<Rightarrow> Inl e
           | Inr n \<Rightarrow>
               (case serialize_all tx_serialize (transactions b) of
                  Inl e \<Rightarrow> Inl e
                | Inr txs \<Rightarrow> Inr (h @ n @ txs))))"

definition deserialize_block :: "byte list \<Rightarrow> nat \<Rightarrow> py_error + (block \<times> nat)" where
  "deserialize_block data offset =
     (case header_deserialize data offset of
        Inl e \<Rightarrow> Inl e
      | Inr (h, header_size) \<Rightarrow>
          (case decode_varint data (offset + header_size) of
             Inl e \<Rightarrow> Inl e
           | Inr (tx_count, varint_size) \<Rightarrow>
               (case deserialize_n tx_deserialize data (nat tx_count)
                       (offset + header_size + varint_size) of
                  Inl e \<Rightarrow> Inl e
                | Inr (txs, off) \<Rightarrow>
                    Inr (\<lparr>header = h, transactions = txs, height = None\<rparr>, off - offset))))"

text \<open>
  Well-formed values: every integer field fits its wire width, every hexadecimal field is
  an even number of lowercase digits (the form \<open>bytes.hex()\<close> produces), hashes have 64
  digits, and every length fits a varint.
\<close>

definition is_lower_hex :: "string \<Rightarrow> bool" where
  "is_lower_hex s =
     (even (length s) \<and> list_all (\<lambda>c. c \<in> set ''0123456789abcdef'') s)"

definition is_u32 :: "int \<Rightarrow> bool" where
  "is_u32 v = (0 \<le> v \<and> v < 2 ^ 32)"

definition wf_output :: "tx_output \<Rightarrow> bool" where
  "wf_output out =
     (0 \<le> val out \<and> val out < 2 ^ 64 \<and> is_lower_hex (pubkey_script out) \<and>
      int (length (pubkey_script out)) div 2 < 2 ^ 64)"

definition wf_input :: "tx_input \<Rightarrow> bool" where
  "wf_input inp =
     (is_lower_hex (previous_txid inp) \<and> length (previous_txid inp) = 64 \<and>
      is_u32 (previous_output_index inp) \<and> is_lower_hex (signature_script inp) \<and>
      int (length (signature_script inp)) div 2 < 2 ^ 64 \<and> is_u32 (sequence inp))"

definition wf_tx :: "transaction \<Rightarrow> bool" where
  "wf_tx tx =
     (is_u32 (version tx) \<and> is_u32 (locktime tx) \<and>
      int (length (inputs tx)) < 2 ^ 64 \<and> int (length (outputs tx)) < 2 ^ 64 \<and>
      list_all wf_input (inputs tx) \<and> list_all wf_output (outputs tx))"

definition wf_header :: "block_header \<Rightarrow> bool" where
  "wf_header h =
     (is_u32 (hversion h) \<and> is_u32 (timestamp h) \<and> is_u32 (difficulty_bits h) \<and>
      is_u32 (nonce h) \<and>
      is_lower_hex (previous_block_hash h) \<and> length (previous_block_hash h) = 64 \<and>
      is_lower_hex (merkle_root h) \<and> length (merkle_root h) = 64)"

definition wf_block :: "block \<Rightarrow> bool" where
  "wf_block b =
     (wf_header (header b) \<and> int (length (transactions b)) < 2 ^ 64 \<and>
      list_all wf_tx (transactions b))"

text \<open>
  What serialization carries of a value: the caches \<open>_txid\<close> and \<open>_hash\<close> and the
  height \<open>_height\<close> are not written, and a deserialized value has them unset.
\<close>

definition wire_tx :: "transaction \<Rightarrow> transaction" where
  "wire_tx tx = tx\<lparr>txid_cache := None\<rparr>"

definition wire_header :: "block_header \<Rightarrow> block_header" where
  "wire_header h = h\<lparr>hash_cache := None\<rparr>"

definition wire_block :: "block \<Rightarrow> block" where
  "wire_block b =
     \<lparr>header = wire_header (header b), transactions = map wire_tx (transactions b),
      height = None\<rparr>"

text \<open>
  \<open>roundtrips ser de x y\<close>: serializing \<open>x\<close> succeeds, and deserializing the bytes at the
  place where they stand inside any buffer yields \<open>y\<close> and reports their number as consumed.
\<close>

definition roundtrips ::
  "('a \<Rightarrow> py_error + byte list) \<Rightarrow> (byte list \<Rightarrow> nat \<Rightarrow> py_error + ('a \<times> nat))
     \<Rightarrow> 'a \<Rightarrow> 'a \<Rightarrow> bool" where
  "roundtrips ser de x y =
     (\<exists>bs. ser x = Inr bs \<and>
           (\<forall>pre post. de (pre @ bs @ post) (length pre) = Inr (y, length bs)))"

text \<open>
  A transaction input whose \<open>signature_script\<close> has the form that
  \<open>validate_transaction_signature\<close> expects (src/consensus/validation.py, lines 417 to 435:
  the hexadecimal signature, a space, the hexadecimal public key), and the bytes it
  serializes to.
\<close>

definition spaced_script_input :: tx_input where
  "spaced_script_input =
     \<lparr>previous_txid = replicate 64 CHR ''a'', previous_output_index = 0,
      signature_script = ''ab cd'', sequence = 0xffffffff\<rparr>"

definition spaced_script_bytes :: "byte list" where
  "spaced_script_bytes = replicate 32 170 @ [0, 0, 0, 0, 2, 171, 205, 255, 255, 255, 255]"

text \<open>Well-formed values on which the round trip is run.\<close>

definition sample_output :: tx_output where
  "sample_output = \<lparr>val = 5000000000, pubkey_script = ''00ab''\<rparr>"

definition sample_input :: tx_input where
  "sample_input =
     \<lparr>previous_txid = replicate 64 CHR ''a'', previous_output_index = 1,
      signature_script = ''abcd'', sequence = 0xffffffff\<rparr>"

definition sample_tx :: transaction where
  "sample_tx =
     \<lparr>version = 1, inputs = [sample_input], outputs = [sample_output], locktime = 0,
      txid_cache = Some (replicate 64 CHR ''b'')\<rparr>"

definition sample_header :: block_header where
  "sample_header =
     \<lparr>hversion = 1, previous_block_hash = replicate 64 CHR ''0'',
      merkle_root = replicate 64 CHR ''b'', timestamp = 1231006505,
      difficulty_bits = 0x1f0fffff, nonce = 7, hash_cache = None\<rparr>"

definition sample_block :: block where
  "sample_block = \<lparr>header = sample_header, transactions = [sample_tx], height = Some 3\<rparr>"

section \<open>Hashes and transaction identifiers\<close>

text \<open>
  \<open>hashlib\<close> is not part of the repository: \<open>double_sha256\<close> is a parameter \<open>H\<close> of every
  function that computes an identifier. The property \<open>txid\<close> returns the cache when it is
  set and computes \<open>calculate_txid\<close> otherwise; serialization may raise.
\<close>

definition calculate_txid :: "(byte list \<Rightarrow> byte list) \<Rightarrow> transaction \<Rightarrow> py_error + string" where
  "calculate_txid H tx =
     (case tx_serialize tx of
        Inl e \<Rightarrow> Inl e
      | Inr serialized \<Rightarrow> Inr (bytes_to_hex (rev (H serialized))))"

definition tx_txid :: "(byte list \<Rightarrow> byte list) \<Rightarrow> transaction \<Rightarrow> py_error + string" where
  "tx_txid H tx = (case txid_cache tx of Some t \<Rightarrow> Inr t | None \<Rightarrow> calculate_txid H tx)"

section \<open>The UTXO set (src/core/utxo.py)\<close>

record utxo_entry =
  uvalue :: int
  upubkey_script :: string
  block_height :: int
  is_coinbase :: bool

text \<open>
  A Python dict keeps its keys in insertion order: it is an association list in which
  \<open>AList.update\<close> overwrites in place or appends, and \<open>AList.delete\<close> removes. The key
  of the UTXO set is the string \<open>f"{txid}:{index}"\<close>.
\<close>

type_synonym utxo_set = "(string \<times> utxo_entry) list"

fun nat_digits :: "nat \<Rightarrow> string" where
  "nat_digits n =
     (if n < 10 then [''0123456789'' ! n] else nat_digits (n div 10) @ [''0123456789'' ! (n mod 10)])"

declare nat_digits.simps [simp del]

definition str_int :: "int \<Rightarrow> string" where
  "str_int i = (if i < 0 then CHR ''-'' # nat_digits (nat (- i)) else nat_digits (nat i))"

definition make_key :: "string \<Rightarrow> int \<Rightarrow> string" where
  "make_key txid index = txid @ '':'' @ str_int index"

definition add_utxo :: "string \<Rightarrow> int \<Rightarrow> tx_output \<Rightarrow> int \<Rightarrow> bool \<Rightarrow> utxo_set \<Rightarrow> utxo_set" where
  "add_utxo txid index out h cb utxos =
     AList.update (make_key txid index)
       \<lparr>uvalue = val out, upubkey_script = pubkey_script out, block_height = h, is_coinbase = cb\<rparr>
       utxos"

definition remove_utxo :: "string \<Rightarrow> int \<Rightarrow> utxo_set \<Rightarrow> py_error + (utxo_entry \<times> utxo_set)" where
  "remove_utxo txid index utxos =
     (case map_of utxos (make_key txid index) of
        None \<Rightarrow> Inl KeyError
      | Some entry \<Rightarrow> Inr (entry, AList.delete (make_key txid index) utxos))"

definition get_utxo :: "utxo_set \<Rightarrow> string \<Rightarrow> int \<Rightarrow> utxo_entry option" where
  "get_utxo utxos txid index = map_of utxos (make_key txid index)"

section \<open>The mempool (src/core/mempool.py)\<close>

text \<open>
  \<open>transactions\<close> is the dict from txid to transaction, \<open>fee_index\<close> the list
  \<open>_fee_index\<close>. The fee rate is a Python float; it is modelled by the exact quotient,
  on which no statement below depends.
\<close>

record mempool =
  mtransactions :: "(string \<times> transaction) list"
  fee_index :: "(rat \<times> string) list"

definition empty_mempool :: mempool where
  "empty_mempool = \<lparr>mtransactions = [], fee_index = []\<rparr>"

text \<open>
  The outpoints that \<open>is_double_spend\<close> collects for a transaction: the references of its
  inputs that are not of the coinbase pattern.
\<close>

definition consumed_outpoints :: "transaction \<Rightarrow> (string \<times> int) list" where
  "consumed_outpoints tx =
     map (\<lambda>inp. (previous_txid inp, previous_output_index inp))
       (filter (\<lambda>inp. \<not> input_is_coinbase inp) (inputs tx))"

definition is_double_spend :: "mempool \<Rightarrow> transaction \<Rightarrow> bool" where
  "is_double_spend m tx =
     (let spent_outputs = set (concat (map (\<lambda>(txid, existing_tx). consumed_outpoints existing_tx)
                                         (mtransactions m)))
      in list_ex (\<lambda>inp. \<not> input_is_coinbase inp \<and>
                         (previous_txid inp, previous_output_index inp) \<in> spent_outputs)
           (inputs tx))"

text \<open>The loop of \<open>_calculate_fee_rate\<close> over the inputs: None when it returns 0.0 early.\<close>

fun input_value_sum :: "utxo_set \<Rightarrow> tx_input list \<Rightarrow> int option" where
  "input_value_sum utxos [] = Some 0"
| "input_value_sum utxos (inp # rest) =
     (if input_is_coinbase inp then None
      else case get_utxo utxos (previous_txid inp) (previous_output_index inp) of
             None \<Rightarrow> None
           | Some utxo \<Rightarrow>
               (case input_value_sum utxos rest of
                  None \<Rightarrow> None
                | Some acc \<Rightarrow> Some (uvalue utxo + acc)))"

definition calculate_fee_rate :: "transaction \<Rightarrow> utxo_set option \<Rightarrow> rat" where
  "calculate_fee_rate tx utxo_set =
     (case utxo_set of
        None \<Rightarrow> 0
      | Some utxos \<Rightarrow>
          (case input_value_sum utxos (inputs tx) of
             None \<Rightarrow> 0
           | Some total_input_value \<Rightarrow>
               let total_output_value = sum_list (map val (outputs tx));
                   fee = total_input_value - total_output_value
               in if fee < 0 then 0
                  else case tx_serialize tx of
                         Inl e \<Rightarrow> 0
                       | Inr bs \<Rightarrow>
                           if length bs = 0 then 0
                           else Fract fee (int (length bs))))"

text \<open>
  \<open>list.sort(key=..., reverse=True)\<close> is stable: entries of equal rate keep their order.
\<close>

definition mempool_add_transaction ::
  "(byte list \<Rightarrow> byte list) \<Rightarrow> transaction \<Rightarrow> utxo_set option \<Rightarrow> mempool
     \<Rightarrow> py_error + (bool \<times> mempool)" where
  "mempool_add_transaction H tx utxo_set m =
     (case tx_txid H tx of
        Inl e \<Rightarrow> Inl e
      | Inr txid \<Rightarrow>
          if map_of (mtransactions m) txid \<noteq> None then Inr (False, m)
          else if tx_is_coinbase tx then Inr (False, m)
          else if is_double_spend m tx then Inr (False, m)
          else
            let fee_rate = calculate_fee_rate tx utxo_set
            in Inr (True,
                    \<lparr>mtransactions = AList.update txid tx (mtransactions m),
                     fee_index = sort_key (\<lambda>entry. - fst entry) (fee_index m @ [(fee_rate, txid)])\<rparr>))"

definition remove_transaction :: "string \<Rightarrow> mempool \<Rightarrow> transaction option \<times> mempool" where
  "remove_transaction txid m =
     (case map_of (mtransactions m) txid of
        None \<Rightarrow> (None, m)
      | Some tx \<Rightarrow>
          (Some tx,
           \<lparr>mtransactions = AList.delete txid (mtransactions m),
            fee_index = filter (\<lambda>(rate, tid). tid \<noteq> txid) (fee_index m)\<rparr>))"

fun clear_confirmed_txs ::
  "(byte list \<Rightarrow> byte list) \<Rightarrow> transaction list \<Rightarrow> mempool \<Rightarrow> py_error + (nat \<times> mempool)" where
  "clear_confirmed_txs H [] m = Inr (0, m)"
| "clear_confirmed_txs H (tx # rest) m =
     (if tx_is_coinbase tx then clear_confirmed_txs H rest m
      else case tx_txid H tx of
             Inl e \<Rightarrow> Inl e
           | Inr txid \<Rightarrow>
               (case remove_transaction txid m of
                  (removed, m') \<Rightarrow>
                    (case clear_confirmed_txs H rest m' of
                       Inl e \<Rightarrow> Inl e
                     | Inr (n, m'') \<Rightarrow> Inr ((if removed \<noteq> None then n + 1 else n), m''))))"

text \<open>
  The states a mempool can be in: it starts empty and changes by \<open>add_transaction\<close>,
  \<open>remove_transaction\<close> and \<open>clear_confirmed\<close> only.
\<close>

inductive mempool_reachable :: "(byte list \<Rightarrow> byte list) \<Rightarrow> mempool \<Rightarrow> bool"
  for H :: "byte list \<Rightarrow> byte list" where
  reach_empty: "mempool_reachable H empty_mempool"
| reach_add:
    "mempool_reachable H m \<Longrightarrow> mempool_add_transaction H tx utxo_set m = Inr (r, m')
       \<Longrightarrow> mempool_reachable H m'"
| reach_remove:
    "mempool_reachable H m \<Longrightarrow> remove_transaction txid m = (r, m') \<Longrightarrow> mempool_reachable H m'"










section \<open>Compact target encoding (src/mining/miner.py)\<close>

lemma and_7fffff: "(x::int) AND 0x7FFFFF = x mod 2 ^ 23"
  using take_bit_eq_mask [of 23 x] by (simp add: take_bit_eq_mod mask_eq_exp_minus_1)

lemma and_ff: "(x::int) AND 0xFF = x mod 2 ^ 8"
  using take_bit_eq_mask [of 8 x] by (simp add: take_bit_eq_mod mask_eq_exp_minus_1)

lemma and_800000_zero: "((x::int) AND 0x800000 = 0) = (\<not> odd (x div 2 ^ 23))"
  using and_exp_eq_0_iff_not_bit [of x 23] by (simp add: bit_iff_odd)

lemma or_push_bit_24: "0 \<le> c \<Longrightarrow> c < 2 ^ 24 \<Longrightarrow> push_bit 24 e OR c = e * 2 ^ 24 + (c::int)"
  using concat_bit_def [of 24 c e] concat_bit_eq [of 24 c e]
  by (simp add: take_bit_eq_mod push_bit_eq_mult or.commute)

lemma bit_length_bounds: "0 < n \<Longrightarrow> 2 ^ (bit_length n - 1) \<le> n \<and> n < 2 ^ bit_length n"
proof (induction n rule: bit_length.induct)
  case (1 n)
  show ?case
  proof (cases "n div 2 = 0")
    case True
    with "1.prems" have "n = 1" by (auto simp: div_eq_0_iff)
    then show ?thesis by (simp add: bit_length.simps)
  next
    case False
    then have pos: "0 < n div 2" by simp
    from "1.IH" [OF _ pos] "1.prems"
    have ih: "2 ^ (bit_length (n div 2) - 1) \<le> n div 2" "n div 2 < 2 ^ bit_length (n div 2)"
      by simp_all
    have k: "0 < bit_length (n div 2)" using pos by (simp add: bit_length.simps)
    have bl: "bit_length n = Suc (bit_length (n div 2))"
      using "1.prems" by (subst bit_length.simps) simp
    have "(2::nat) ^ bit_length (n div 2) = 2 * 2 ^ (bit_length (n div 2) - 1)"
      using k by (cases "bit_length (n div 2)") simp_all
    with ih have a: "2 ^ bit_length (n div 2) \<le> 2 * (n div 2)" by simp
    have b: "2 * (n div 2) \<le> n" "n < 2 * (n div 2) + 2" by arith+
    from a b ih(2) show ?thesis unfolding bl by simp
  qed
qed

lemma pow256: "(256::nat) ^ k = 2 ^ (8 * k)"
  by (simp add: power_mult)

lemma byte_length_unique:
  assumes "0 < B" "256 ^ (B - 1) \<le> n" "n < 256 ^ B"
  shows "(bit_length n + 7) div 8 = B"
proof -
  have npos: "0 < n" using assms(2) by (metis zero_less_numeral zero_less_power less_le_trans)
  from bit_length_bounds [OF npos]
  have lo: "2 ^ (bit_length n - 1) \<le> n" and hi: "n < 2 ^ bit_length n" by simp_all
  have "(2::nat) ^ (bit_length n - 1) < 2 ^ (8 * B)"
    using lo assms(3) unfolding pow256 by (rule le_less_trans)
  then have u: "bit_length n - 1 < 8 * B" by simp
  have "(2::nat) ^ (8 * (B - 1)) < 2 ^ bit_length n"
    using assms(2) hi unfolding pow256 by (rule le_less_trans)
  then have l: "8 * (B - 1) < bit_length n" by simp
  from u l assms(1) show ?thesis by arith
qed

lemma length_le_bytes [simp]: "length (le_bytes v n) = n"
  by (induction n arbitrary: v) simp_all

lemma foldr_le_bytes:
  "0 \<le> v \<Longrightarrow> foldr (\<lambda>b acc. int b + 256 * acc) (le_bytes v n) 0 = v mod 256 ^ n"
proof (induction n arbitrary: v)
  case 0
  then show ?case by simp
next
  case (Suc n)
  have "0 \<le> v div 256" using Suc.prems by simp
  from Suc.IH [OF this] show ?case
    by (simp add: zmod_zmult2_eq)
qed

lemma drop_le_bytes: "drop k (le_bytes v n) = le_bytes (v div 256 ^ k) (n - k)"
proof (induction k arbitrary: v n)
  case 0
  then show ?case by simp
next
  case (Suc k)
  show ?case
  proof (cases n)
    case 0
    then show ?thesis by simp
  next
    case (Suc m)
    then show ?thesis using Suc.IH [of "v div 256" m]
      by (simp add: div_mult2_eq zdiv_zmult2_eq)
  qed
qed

lemma foldr_replicate_zero:
  "foldr (\<lambda>b acc. int b + 256 * acc) (replicate m 0 @ xs) 0
     = 256 ^ m * foldr (\<lambda>b acc. int b + 256 * acc) xs 0"
  by (induction m) simp_all


lemma pow_split: "k \<le> B \<Longrightarrow> (a::int) ^ B = a ^ (B - k) * a ^ k"
  by (simp add: power_add [symmetric])

lemma int_div_less: "0 < d \<Longrightarrow> t < d * m \<Longrightarrow> t div d < (m::int)"
proof (rule ccontr)
  assume d: "0 < d" and lt: "t < d * m" and "\<not> t div d < m"
  then have "d * m \<le> d * (t div d)" by (simp add: mult_left_mono)
  moreover have "d * (t div d) \<le> t"
    using d by (metis mult_div_mod_eq pos_mod_sign add_increasing2 order_refl)
  ultimately show False using lt by simp
qed

lemma int_le_div: "0 < d \<Longrightarrow> d * m \<le> t \<Longrightarrow> m \<le> t div (d::int)"
  using zdiv_mono1 [of "d * m" t d] by simp

lemma target_to_compact_bits_arith:
  assumes B: "0 < B" and lo: "256 ^ (B - 1) \<le> t" and hi: "t < 256 ^ B"
  shows "target_to_compact_bits t =
           Inr (let top = (if 3 \<le> B then t div 256 ^ (B - 3) else t * 256 ^ (3 - B))
                in if 2 ^ 23 \<le> top then (int B + 1) * 2 ^ 24 + top div 256
                   else int B * 2 ^ 24 + top)"
proof -
  define top where "top = (if 3 \<le> B then t div 256 ^ (B - 3) else t * 256 ^ (3 - B))"
  have tpos: "0 < t"
    using lo by (smt (verit) zero_less_power)
  have "256 ^ (B - 1) \<le> nat t" "nat t < 256 ^ B"
    using lo hi tpos by (simp_all add: nat_le_iff nat_less_iff)
  from byte_length_unique [OF B this]
  have bl: "(bit_length (nat t) + 7) div 8 = B" .
  have tb: "int_to_bytes t B True = Inr (rev (le_bytes t B))"
    using tpos hi by (simp add: int_to_bytes_def)
  have coef: "(if 3 \<le> B then int_from_bytes (take 3 (rev (le_bytes t B))) True
               else int_from_bytes (rev (le_bytes t B) @ replicate (3 - B) 0) True) = top"
  proof (cases "3 \<le> B")
    case True
    have split: "(256::int) ^ B = 256 ^ (B - 3) * 256 ^ 3"
      using True by (rule pow_split)
    have small: "t div 256 ^ (B - 3) < 256 ^ 3"
      using hi unfolding split by (intro int_div_less) simp_all
    have nonneg: "0 \<le> t div 256 ^ (B - 3)"
      using tpos by (simp add: pos_imp_zdiv_nonneg_iff)
    have "int_from_bytes (take 3 (rev (le_bytes t B))) True
            = foldr (\<lambda>b acc. int b + 256 * acc) (le_bytes (t div 256 ^ (B - 3)) (B - (B - 3))) 0"
      by (simp add: int_from_bytes_def take_rev drop_le_bytes)
    also have "B - (B - 3) = 3" using True by simp
    also have "foldr (\<lambda>b acc. int b + 256 * acc) (le_bytes (t div 256 ^ (B - 3)) 3) 0
                 = t div 256 ^ (B - 3)"
      using foldr_le_bytes [OF nonneg, of 3] small nonneg by simp
    finally show ?thesis using True by (simp add: top_def)
  next
    case False
    have "int_from_bytes (rev (le_bytes t B) @ replicate (3 - B) 0) True
            = foldr (\<lambda>b acc. int b + 256 * acc) (replicate (3 - B) 0 @ le_bytes t B) 0"
      by (simp add: int_from_bytes_def del: foldr_append foldr_replicate)
    also have "\<dots> = 256 ^ (3 - B) * foldr (\<lambda>b acc. int b + 256 * acc) (le_bytes t B) 0"
      by (rule foldr_replicate_zero)
    also have "foldr (\<lambda>b acc. int b + 256 * acc) (le_bytes t B) 0 = t mod 256 ^ B"
      using tpos by (intro foldr_le_bytes) simp
    also have "t mod 256 ^ B = t" using tpos hi by simp
    finally show ?thesis using False by (simp add: top_def mult.commute)
  qed
  have top_lo: "2 ^ 16 \<le> top"
  proof (cases "3 \<le> B")
    case True
    have "(256::int) ^ (B - 1) = 256 ^ (B - 1 - 2) * 256 ^ 2"
      using True by (intro pow_split) simp
    then have split: "(256::int) ^ (B - 1) = 256 ^ 2 * 256 ^ (B - 3)"
      by (simp add: mult.commute)
    have "256 ^ 2 \<le> t div 256 ^ (B - 3)"
      using lo unfolding split by (intro int_le_div) (simp_all add: mult.commute)
    then show ?thesis using True by (simp add: top_def)
  next
    case False
    then consider "B = 1" | "B = 2" using B by arith
    then show ?thesis using lo by cases (simp_all add: top_def)
  qed
  have top_hi: "top < 2 ^ 24"
  proof (cases "3 \<le> B")
    case True
    have split: "(256::int) ^ B = 256 ^ (B - 3) * 256 ^ 3"
      using True by (rule pow_split)
    have "t div 256 ^ (B - 3) < 256 ^ 3"
      using hi unfolding split by (intro int_div_less) simp_all
    then show ?thesis using True by (simp add: top_def)
  next
    case False
    then consider "B = 1" | "B = 2" using B by arith
    then show ?thesis using hi by cases (simp_all add: top_def)
  qed
  have top_nonneg: "0 \<le> top" using top_lo by simp
  have sh: "(top AND 0x800000 \<noteq> 0) = (2 ^ 23 \<le> top)"
  proof -
    have "odd (top div 2 ^ 23) = (2 ^ 23 \<le> top)"
    proof (cases "2 ^ 23 \<le> top")
      case True
      then have "top div 2 ^ 23 = 1" using top_hi by simp
      then show ?thesis using True by simp
    next
      case False
      then have "top div 2 ^ 23 = 0" using top_nonneg by simp
      then show ?thesis using False by simp
    qed
    then show ?thesis by (simp add: and_800000_zero)
  qed
  have res_hi: "2 ^ 23 \<le> top \<Longrightarrow>
      push_bit 24 (int (B + 1)) OR (drop_bit 8 top AND 0x7FFFFF) = (int B + 1) * 2 ^ 24 + top div 256"
  proof -
    assume "2 ^ 23 \<le> top"
    have d: "drop_bit 8 top = top div 256" by (simp add: drop_bit_eq_div)
    have r: "0 \<le> top div 256" "top div 256 < 2 ^ 16"
      using top_nonneg top_hi by simp_all
    then have "(top div 256) mod 2 ^ 23 = top div 256" by simp
    then show ?thesis using r by (simp add: d and_7fffff or_push_bit_24)
  qed
  have res_lo: "\<not> 2 ^ 23 \<le> top \<Longrightarrow>
      push_bit 24 (int B) OR (top AND 0x7FFFFF) = int B * 2 ^ 24 + top"
  proof -
    assume "\<not> 2 ^ 23 \<le> top"
    then have "top mod 2 ^ 23 = top" "top < 2 ^ 24" using top_nonneg by simp_all
    then show ?thesis using top_nonneg by (simp add: and_7fffff or_push_bit_24)
  qed
  show ?thesis
    using tpos res_hi res_lo
    by (simp add: target_to_compact_bits_def bl tb coef sh Let_def top_def [symmetric])
qed


lemma canonical_bits_decomp:
  assumes "canonical_bits b"
  obtains e c where "b = e * 2 ^ 24 + c" "0 \<le> e" "e < 256" "2 ^ 15 \<le> c" "c < 2 ^ 23"
    "drop_bit 24 b AND 0xFF = e" "b AND 0x7FFFFF = c" "b AND 0x800000 = 0"
    "e < 3 \<longrightarrow> c mod 256 ^ nat (3 - e) = 0"
proof -
  define e where "e = b div 2 ^ 24"
  define c where "c = b mod 2 ^ 23"
  from assms have pos: "0 < b" and lt: "b < 2 ^ 32" and sign: "b AND 0x800000 = 0"
    and big: "0x8000 \<le> b AND 0x7FFFFF"
    and low: "drop_bit 24 b AND 0xFF < 3 \<longrightarrow>
                (b AND 0x7FFFFF) mod 256 ^ nat (3 - (drop_bit 24 b AND 0xFF)) = 0"
    by (simp_all add: canonical_bits_def Let_def)
  have e0: "0 \<le> e" using pos by (simp add: e_def pos_imp_zdiv_nonneg_iff)
  have e1: "e < 256" unfolding e_def using lt by (intro int_div_less) simp_all
  have de: "drop_bit 24 b AND 0xFF = e"
    using e0 e1 by (simp add: and_ff drop_bit_eq_div e_def)
  have ce: "b AND 0x7FFFFF = c" by (simp add: and_7fffff c_def)
  have even: "\<not> odd (b div 2 ^ 23)" using sign by (simp add: and_800000_zero)
  have "b mod (2 ^ 23 * 2) = 2 ^ 23 * (b div 2 ^ 23 mod 2) + b mod 2 ^ 23"
    by (rule zmod_zmult2_eq) simp
  then have m24: "b mod 2 ^ 24 = c" using even by (simp add: c_def)
  have "b = 2 ^ 24 * (b div 2 ^ 24) + b mod 2 ^ 24" by simp
  then have b: "b = e * 2 ^ 24 + c" unfolding m24 e_def by (simp add: mult.commute)
  have c0: "2 ^ 15 \<le> c" using big by (simp add: ce)
  have c1: "c < 2 ^ 23" by (simp add: c_def)
  have lw: "e < 3 \<longrightarrow> c mod 256 ^ nat (3 - e) = 0" using low by (simp add: de ce)
  from b e0 e1 c0 c1 de ce sign lw show thesis by (rule that)
qed

lemma compact_bits_to_target_canonical:
  assumes "0 < b" "drop_bit 24 b AND 0xFF = e" "b AND 0x7FFFFF = c" "b AND 0x800000 = 0" "0 \<le> c"
  shows "compact_bits_to_target b =
           Inr (if e \<le> 3 then c div 256 ^ nat (3 - e) else c * 256 ^ nat (e - 3))"
proof -
  have p: "(2::int) ^ nat (8 * k) = 256 ^ nat k" for k :: int
  proof -
    have "nat (8 * k) = 8 * nat k" by (simp add: nat_mult_distrib)
    then show ?thesis by (simp add: power_mult)
  qed
  have p1: "(2::int) ^ nat (24 - 8 * e) = 256 ^ nat (3 - e)"
    using p [of "3 - e"] by (simp add: algebra_simps)
  have p2: "(2::int) ^ nat (8 * e - 24) = 256 ^ nat (e - 3)"
    using p [of "e - 3"] by (simp add: algebra_simps)
  have "0 \<le> c div 256 ^ nat (3 - e)" using assms(5) by (simp add: pos_imp_zdiv_nonneg_iff)
  moreover have "0 \<le> c * 256 ^ nat (e - 3)" using assms(5) by simp
  ultimately show ?thesis
    using assms
    by (simp add: compact_bits_to_target_def Let_def drop_bit_eq_div push_bit_eq_mult p1 p2
          mult_less_0_iff)
qed


text \<open>
  Claim C9, as stated, at the encoding \<open>0x02010203\<close>: the sign bit is clear and the
  exponent 2 is the shortest one for its target 258, yet \<open>compact_bits_to_target\<close>
  drops the low mantissa byte and \<open>target_to_compact_bits\<close> returns \<open>0x02010200\<close>,
  which is not the encoding that was decoded.
\<close>

theorem compact_bits_roundtrip_counterexample:
  "spec_canonical_bits 0x02010203 \<and>
   compact_bits_to_target 0x02010203 = Inr 258 \<and>
   target_to_compact_bits 258 = Inr 0x02010200 \<and>
   (0x02010200 :: int) \<noteq> 0x02010203"
proof -
  have a: "spec_canonical_bits 0x02010203"
    by (simp add: spec_canonical_bits_def)
  have b: "compact_bits_to_target 0x02010203 = Inr 258"
    by (simp add: compact_bits_to_target_def)
  have c: "target_to_compact_bits 258 = Inr 0x02010200"
    by code_simp
  from a b c show ?thesis by simp
qed

text \<open>
  Claim C9, amended. For every positive 32-bit compact encoding \<open>b\<close> with the sign bit
  clear and a shortest-form exponent which, when its exponent is below 3, has no non-zero
  bit in the mantissa bytes that the decoder shifts out, \<open>compact_bits_to_target b\<close>
  returns a target \<open>t\<close> and \<open>target_to_compact_bits t\<close> returns \<open>b\<close> again.
\<close>

theorem compact_bits_roundtrip:
  assumes "canonical_bits b"
  shows "\<exists>t. compact_bits_to_target b = Inr t \<and> target_to_compact_bits t = Inr b"
proof -
  from assms obtain e c where b: "b = e * 2 ^ 24 + c" and e0: "0 \<le> e" and e1: "e < 256"
    and c0: "2 ^ 15 \<le> c" and c1: "c < 2 ^ 23"
    and de: "drop_bit 24 b AND 0xFF = e" and ce: "b AND 0x7FFFFF = c"
    and sign: "b AND 0x800000 = 0" and low: "e < 3 \<longrightarrow> c mod 256 ^ nat (3 - e) = 0"
    by (rule canonical_bits_decomp)
  have bpos: "0 < b" using assms by (simp add: canonical_bits_def)
  define t where "t = (if e \<le> 3 then c div 256 ^ nat (3 - e) else c * 256 ^ nat (e - 3))"
  have dec: "compact_bits_to_target b = Inr t"
    unfolding t_def using bpos de ce sign c0 by (intro compact_bits_to_target_canonical) simp_all
  have enc: "target_to_compact_bits t = Inr b"
  proof (cases "4 \<le> e")
    case True
    define k where "k = nat (e - 3)"
    have k: "0 < k" "e = int k + 3" using True by (simp_all add: k_def)
    have t: "t = c * 256 ^ k" using True by (simp add: t_def k_def)
    show ?thesis
    proof (cases "2 ^ 16 \<le> c")
      case True
      have "65536 * 256 ^ k \<le> c * (256::int) ^ k" using True by simp
      then have lo: "256 ^ (k + 3 - 1) \<le> t" by (simp add: t power_add mult.commute)
      have "c * 256 ^ k < 16777216 * (256::int) ^ k" using c1 by simp
      then have hi: "t < 256 ^ (k + 3)" by (simp add: t power_add mult.commute)
      have top: "t div 256 ^ (k + 3 - 3) = c" by (simp add: t)
      from target_to_compact_bits_arith [OF _ lo hi] top c1
      show ?thesis by (simp add: Let_def b k algebra_simps)
    next
      case False
      have "256 * 256 ^ k \<le> c * (256::int) ^ k" using c0 by simp
      then have lo: "256 ^ (k + 2 - 1) \<le> t" by (simp add: t power_add mult.commute)
      have "c * 256 ^ k < 65536 * (256::int) ^ k" using False by simp
      then have hi: "t < 256 ^ (k + 2)" by (simp add: t power_add mult.commute)
      have "(256::int) ^ k = 256 ^ (k - 1) * 256" using k(1) by (cases k) simp_all
      then have top: "t div 256 ^ (k + 2 - 3) = c * 256" by (simp add: t)
      have ge: "3 \<le> k + 2" using k(1) by simp
      from target_to_compact_bits_arith [OF _ lo hi] top c0 ge
      show ?thesis by (simp add: Let_def b k algebra_simps)
    qed
  next
    case False
    then consider "e = 0" | "e = 1" | "e = 2" | "e = 3" using e0 by arith
    then show ?thesis
    proof cases
      case 1
      with low have "c mod 256 ^ 3 = 0" by simp
      then have "c mod 16777216 = 0" by simp
      with c0 c1 show ?thesis by simp
    next
      case 2
      with low have dv: "c mod 65536 = 0" by simp
      then have cc: "c = (c div 65536) * 65536" by (simp add: mod_eq_0_iff_dvd)
      have t: "t = c div 65536" using 2 by (simp add: t_def)
      have lo: "256 ^ (1 - 1) \<le> t" using c0 cc unfolding t by simp
      have hi: "t < 256 ^ 1" using c1 unfolding t by simp
      have top: "t * 256 ^ (3 - 1) = c" using cc unfolding t by simp
      from target_to_compact_bits_arith [OF _ lo hi] top c1
      show ?thesis by (simp add: Let_def b 2)
    next
      case 3
      with low have dv: "c mod 256 = 0" by simp
      then have cc: "c = (c div 256) * 256" by (simp add: mod_eq_0_iff_dvd)
      have t: "t = c div 256" using 3 by (simp add: t_def)
      show ?thesis
      proof (cases "2 ^ 16 \<le> c")
        case True
        have lo: "256 ^ (2 - 1) \<le> t" using True unfolding t by simp
        have hi: "t < 256 ^ 2" using c1 unfolding t by simp
        have top: "t * 256 ^ (3 - 2) = c" using cc unfolding t by simp
        from target_to_compact_bits_arith [OF _ lo hi] top c1
        show ?thesis by (simp add: Let_def b 3)
      next
        case False
        have lo: "256 ^ (1 - 1) \<le> t" using c0 unfolding t by simp
        have hi: "t < 256 ^ 1" using False unfolding t by simp
        have top: "t * 256 ^ (3 - 1) = c * 256" using cc unfolding t by simp
        from target_to_compact_bits_arith [OF _ lo hi] top c0
        show ?thesis by (simp add: Let_def b 3)
      qed
    next
      case 4
      have t: "t = c" using 4 by (simp add: t_def)
      show ?thesis
      proof (cases "2 ^ 16 \<le> c")
        case True
        have lo: "256 ^ (3 - 1) \<le> t" using True unfolding t by simp
        have hi: "t < 256 ^ 3" using c1 unfolding t by simp
        from target_to_compact_bits_arith [OF _ lo hi] c1
        show ?thesis by (simp add: Let_def b 4 t)
      next
        case False
        have lo: "256 ^ (2 - 1) \<le> t" using c0 unfolding t by simp
        have hi: "t < 256 ^ 2" using False unfolding t by simp
        from target_to_compact_bits_arith [OF _ lo hi] c0
        show ?thesis by (simp add: Let_def b 4 t)
      qed
    qed
  qed
  from dec enc show ?thesis by blast
qed

theorem compact_bits_roundtrip_witness:
  "canonical_bits 0x1d00ffff \<and>
   (\<exists>t. compact_bits_to_target 0x1d00ffff = Inr t \<and> target_to_compact_bits t = Inr 0x1d00ffff)"
proof -
  have c: "canonical_bits 0x1d00ffff" by (simp add: canonical_bits_def)
  from c compact_bits_roundtrip [OF c] show ?thesis by simp
qed

section \<open>Serialization round trips (src/core/transaction.py, src/core/block.py)\<close>

subsection \<open>Hexadecimal strings\<close>

lemma lower_hex_char:
  assumes "c \<in> set ''0123456789abcdef''"
  shows "\<not> is_space c \<and> (\<exists>h. hex_value c = Some h \<and> h < 16 \<and> hex_digit h = c) \<and> c \<noteq> CHR ''x''"
  using assms by (auto simp: is_space_def hex_value_def hex_digit_def)

lemma hex_byte:
  assumes "h < 16" "l < 16"
  shows "(16 * h + l) div 16 = h" "(16 * h + l) mod 16 = (l::nat)" "16 * h + l < 256"
  using assms by simp_all

lemma bytes_fromhex_lower:
  "is_lower_hex s \<Longrightarrow>
     \<exists>bs. bytes_fromhex s = Inr bs \<and> bytes_to_hex bs = s \<and> 2 * length bs = length s"
proof (induction s rule: bytes_fromhex.induct)
  case 1
  then show ?case by (simp add: bytes_to_hex_def)
next
  case (2 c)
  then show ?case by (simp add: is_lower_hex_def)
next
  case (3 c d rest)
  from "3.prems" have c: "c \<in> set ''0123456789abcdef''" and d: "d \<in> set ''0123456789abcdef''"
    and r: "is_lower_hex rest"
    by (simp_all add: is_lower_hex_def)
  from lower_hex_char [OF c] obtain h where h: "\<not> is_space c" "hex_value c = Some h" "h < 16" "hex_digit h = c"
    by blast
  from lower_hex_char [OF d] obtain l where l: "hex_value d = Some l" "l < 16" "hex_digit l = d"
    by blast
  from "3.IH"(2) [OF h(1) refl h(2) l(1) r] obtain bs
    where bs: "bytes_fromhex rest = Inr bs" "bytes_to_hex bs = rest" "2 * length bs = length rest"
    by blast
  have "bytes_fromhex (c # d # rest) = Inr ((16 * h + l) # bs)"
    using h l bs by simp
  moreover have "bytes_to_hex ((16 * h + l) # bs) = c # d # rest"
    using h l bs hex_byte [OF h(3) l(2)] by (simp add: bytes_to_hex_def)
  ultimately show ?case using bs(3) by simp
qed

lemma hex_to_bytes_lower: "is_lower_hex s \<Longrightarrow> hex_to_bytes s = bytes_fromhex s"
proof -
  assume a: "is_lower_hex s"
  have "take 2 s \<noteq> ''0x'' \<and> take 2 s \<noteq> ''0X''"
  proof (cases s)
    case Nil
    then show ?thesis by simp
  next
    case (Cons c t)
    show ?thesis
    proof (cases t)
      case Nil
      with Cons show ?thesis by simp
    next
      case (Cons d u)
      with \<open>s = c # t\<close> a have "d \<in> set ''0123456789abcdef''" by (simp add: is_lower_hex_def)
      then have "d \<noteq> CHR ''x'' \<and> d \<noteq> CHR ''X''" by auto
      with Cons \<open>s = c # t\<close> show ?thesis by simp
    qed
  qed
  then show ?thesis by (simp add: hex_to_bytes_def)
qed



subsection \<open>Little-endian integers, slices and varints\<close>

lemma int_to_little_endian_ok:
  "0 \<le> v \<Longrightarrow> v < 256 ^ n \<Longrightarrow> int_to_little_endian v n = Inr (le_bytes v n)"
  by (simp add: int_to_little_endian_def int_to_bytes_def)

lemma little_endian_to_int_le_bytes:
  "0 \<le> v \<Longrightarrow> v < 256 ^ n \<Longrightarrow> little_endian_to_int (le_bytes v n) = v"
  by (simp add: little_endian_to_int_def int_from_bytes_def foldr_le_bytes)

lemma slice_prefix: "slice (xs @ post) 0 (length xs) = xs"
  by (simp add: slice_def)

lemma slice_skip: "slice (pre @ data) (length pre + a) (length pre + b) = slice data a b"
  by (simp add: slice_def)

lemma slice_frame: "slice (pre @ xs @ post) (length pre) (length pre + length xs) = xs"
  using slice_skip [of pre "xs @ post" 0 "length xs"] by (simp add: slice_prefix)

lemma decode_varint_skip:
  "decode_varint (pre @ data) (length pre + k) = decode_varint data k"
proof -
  have s: "slice (pre @ data) (length pre + k + 1) (length pre + k + n) = slice data (k + 1) (k + n)" for n
    using slice_skip [of pre data "k + 1" "k + n"] by (simp add: add.assoc)
  show ?thesis
    unfolding decode_varint_def Let_def s by (simp add: nth_append)
qed


lemma varint_roundtrip:
  assumes "0 \<le> v" "v < 2 ^ 64"
  shows "\<exists>bs. encode_varint v = Inr bs \<and>
              (\<forall>post. decode_varint (bs @ post) 0 = Inr (v, length bs))"
proof -
  have sl: "slice (p # le_bytes v n @ post) 1 (Suc n) = le_bytes v n" for p n post
    using slice_frame [of "[p]" "le_bytes v n" post] by simp
  consider "v < 0xfd" | "0xfd \<le> v" "v \<le> 0xffff" | "0xffff < v" "v \<le> 0xffffffff" | "0xffffffff < v"
    by arith
  then show ?thesis
  proof cases
    case 1
    then show ?thesis using assms by (simp add: encode_varint_def decode_varint_def nat_less_iff)
  next
    case 2
    have e: "encode_varint v = Inr (0xfd # le_bytes v 2)"
      using 2 assms by (simp add: encode_varint_def int_to_little_endian_ok)
    have "decode_varint ((0xfd # le_bytes v 2) @ post) 0 = Inr (v, 3)" for post
      using 2 assms sl [of "0xfd" 2 post]
      by (simp add: decode_varint_def little_endian_to_int_le_bytes)
    then show ?thesis using e by simp
  next
    case 3
    have e: "encode_varint v = Inr (0xfe # le_bytes v 4)"
      using 3 assms by (simp add: encode_varint_def int_to_little_endian_ok)
    have "decode_varint ((0xfe # le_bytes v 4) @ post) 0 = Inr (v, 5)" for post
      using 3 assms sl [of "0xfe" 4 post]
      by (simp add: decode_varint_def little_endian_to_int_le_bytes)
    then show ?thesis using e by simp
  next
    case 4
    have e: "encode_varint v = Inr (0xff # le_bytes v 8)"
      using 4 assms by (simp add: encode_varint_def int_to_little_endian_ok)
    have "decode_varint ((0xff # le_bytes v 8) @ post) 0 = Inr (v, 9)" for post
      using 4 assms sl [of "0xff" 8 post]
      by (simp add: decode_varint_def little_endian_to_int_le_bytes)
    then show ?thesis using e by simp
  qed
qed


lemma slice_append_ge:
  "length pre \<le> a \<Longrightarrow> slice (pre @ data) a b = slice data (a - length pre) (b - length pre)"
  by (simp add: slice_def)

lemma output_deserialize_skip:
  "output_deserialize (pre @ data) (length pre + k) = output_deserialize data k"
proof -
  have d: "decode_varint (pre @ data) (length pre + k + 8) = decode_varint data (k + 8)"
    using decode_varint_skip [of pre data "k + 8"] by (simp add: add.assoc)
  show ?thesis
    unfolding output_deserialize_def d
    by (simp add: Let_def slice_append_ge add.assoc split: sum.splits prod.splits)
qed

lemma output_roundtrip:
  assumes "wf_output out"
  shows "roundtrips output_serialize output_deserialize out out"
proof -
  from assms have v: "0 \<le> val out" "val out < 256 ^ 8"
    and hx: "is_lower_hex (pubkey_script out)"
    and ln: "int (length (pubkey_script out)) div 2 < 2 ^ 64"
    by (simp_all add: wf_output_def)
  from bytes_fromhex_lower [OF hx] obtain sb where sb: "bytes_fromhex (pubkey_script out) = Inr sb"
    "bytes_to_hex sb = pubkey_script out" "2 * length sb = length (pubkey_script out)"
    by blast
  have "int (length sb) < 2 ^ 64" using ln sb(3) [symmetric] by simp
  from varint_roundtrip [OF _ this] obtain n where n: "encode_varint (int (length sb)) = Inr n"
    "\<And>post. decode_varint (n @ post) 0 = Inr (int (length sb), length n)"
    by auto
  define v8 where "v8 = le_bytes (val out) 8"
  have l8: "length v8 = 8" by (simp add: v8_def)
  have ser: "output_serialize out = Inr (v8 @ n @ sb)"
    using v sb(1) n(1) hx
    by (simp add: output_serialize_def int_to_little_endian_ok hex_to_bytes_lower v8_def)
  have de0: "output_deserialize ((v8 @ n @ sb) @ post) 0 = Inr (out, length (v8 @ n @ sb))" for post
  proof -
    have a: "slice ((v8 @ n @ sb) @ post) 0 (0 + 8) = v8"
      using slice_prefix [of v8 "n @ sb @ post"] l8 by simp
    have b: "decode_varint ((v8 @ n @ sb) @ post) (0 + 8) = Inr (int (length sb), length n)"
      using decode_varint_skip [of v8 "n @ sb @ post" 0] n(2) [of "sb @ post"] l8 by simp
    have c: "slice ((v8 @ n @ sb) @ post) (0 + 8 + length n) (0 + 8 + length n + nat (int (length sb))) = sb"
      using slice_frame [of "v8 @ n" sb post] l8 by simp
    show ?thesis
      unfolding output_deserialize_def Let_def a b
      using c v sb(2) l8 by (simp add: little_endian_to_int_le_bytes v8_def)
  qed
  have "output_deserialize (pre @ (v8 @ n @ sb) @ post) (length pre) = Inr (out, length (v8 @ n @ sb))"
    for pre post
    using output_deserialize_skip [of pre "(v8 @ n @ sb) @ post" 0] de0 [of post] by simp
  with ser show ?thesis unfolding roundtrips_def by blast
qed


lemma input_deserialize_skip:
  "input_deserialize (pre @ data) (length pre + k) = input_deserialize data k"
proof -
  have d: "decode_varint (pre @ data) (length pre + k + 36) = decode_varint data (k + 36)"
    using decode_varint_skip [of pre data "k + 36"] by (simp add: add.assoc)
  show ?thesis
    unfolding input_deserialize_def d
    by (simp add: Let_def slice_append_ge add.assoc split: sum.splits prod.splits)
qed

lemma input_roundtrip:
  assumes "wf_input inp"
  shows "roundtrips input_serialize input_deserialize inp inp"
proof -
  from assms have hx: "is_lower_hex (previous_txid inp)" and l64: "length (previous_txid inp) = 64"
    and ix: "0 \<le> previous_output_index inp" "previous_output_index inp < 256 ^ 4"
    and hs: "is_lower_hex (signature_script inp)"
    and ln: "int (length (signature_script inp)) div 2 < 2 ^ 64"
    and sq: "0 \<le> sequence inp" "sequence inp < 256 ^ 4"
    by (simp_all add: wf_input_def is_u32_def)
  from bytes_fromhex_lower [OF hx] l64 obtain tb where tb: "bytes_fromhex (previous_txid inp) = Inr tb"
    "bytes_to_hex tb = previous_txid inp" "length tb = 32"
    by auto
  from bytes_fromhex_lower [OF hs] obtain sb where sb: "bytes_fromhex (signature_script inp) = Inr sb"
    "bytes_to_hex sb = signature_script inp" "2 * length sb = length (signature_script inp)"
    by blast
  have sb': "(if signature_script inp \<noteq> [] then hex_to_bytes (signature_script inp) else Inr [])
               = Inr sb"
    using sb hs by (auto simp: hex_to_bytes_lower)
  have sc: "(if 0 < int (length sb) then bytes_to_hex sb else []) = signature_script inp"
    using sb by auto
  have "int (length sb) < 2 ^ 64" using ln sb(3) [symmetric] by simp
  from varint_roundtrip [OF _ this] obtain n where n: "encode_varint (int (length sb)) = Inr n"
    "\<And>post. decode_varint (n @ post) 0 = Inr (int (length sb), length n)"
    by auto
  define t where "t = rev tb"
  define i4 where "i4 = le_bytes (previous_output_index inp) 4"
  define s4 where "s4 = le_bytes (sequence inp) 4"
  have lt: "length t = 32" and li: "length i4 = 4" and ls: "length s4 = 4"
    by (simp_all add: t_def i4_def s4_def tb(3))
  have ser: "input_serialize inp = Inr (t @ i4 @ n @ sb @ s4)"
    using tb(1) ix sq n(1)
    by (simp add: input_serialize_def sb' int_to_little_endian_ok t_def i4_def s4_def)
  have de0: "input_deserialize ((t @ i4 @ n @ sb @ s4) @ post) 0
               = Inr (inp, length (t @ i4 @ n @ sb @ s4))" for post
  proof -
    let ?d = "(t @ i4 @ n @ sb @ s4) @ post"
    have a: "slice ?d 0 (0 + 32) = t"
      using slice_prefix [of t "i4 @ n @ sb @ s4 @ post"] lt by simp
    have b: "slice ?d (0 + 32) (0 + 36) = i4"
      using slice_frame [of t i4 "n @ sb @ s4 @ post"] lt li by simp
    have c: "decode_varint ?d (0 + 36) = Inr (int (length sb), length n)"
      using decode_varint_skip [of "t @ i4" "n @ sb @ s4 @ post" 0] n(2) [of "sb @ s4 @ post"] lt li
      by simp
    have d: "slice ?d (0 + 36 + length n) (0 + 36 + length n + nat (int (length sb))) = sb"
      using slice_frame [of "t @ i4 @ n" sb "s4 @ post"] lt li by simp
    have e: "slice ?d (0 + 36 + length n + nat (int (length sb)))
                      (0 + 36 + length n + nat (int (length sb)) + 4) = s4"
      using slice_frame [of "t @ i4 @ n @ sb" s4 post] lt li ls by (simp add: add.assoc)
    have raw: "input_deserialize ?d 0 =
        Inr (\<lparr>previous_txid = bytes_to_hex (rev t),
               previous_output_index = little_endian_to_int i4,
               signature_script = (if 0 < int (length sb) then bytes_to_hex sb else []),
               sequence = little_endian_to_int s4\<rparr>,
             36 + length n + nat (int (length sb)) + 4)"
      unfolding input_deserialize_def Let_def a b c using d e by (simp add: add.assoc)
    have f1: "bytes_to_hex (rev t) = previous_txid inp" by (simp add: t_def tb(2))
    have f2: "little_endian_to_int i4 = previous_output_index inp"
      unfolding i4_def using ix by (rule little_endian_to_int_le_bytes)
    have f3: "little_endian_to_int s4 = sequence inp"
      unfolding s4_def using sq by (rule little_endian_to_int_le_bytes)
    have len: "36 + length n + nat (int (length sb)) + 4 = length (t @ i4 @ n @ sb @ s4)"
      using lt li ls by simp
    show ?thesis unfolding raw f1 f2 f3 sc len by simp
  qed
  have "input_deserialize (pre @ (t @ i4 @ n @ sb @ s4) @ post) (length pre)
          = Inr (inp, length (t @ i4 @ n @ sb @ s4))" for pre post
    using input_deserialize_skip [of pre "(t @ i4 @ n @ sb @ s4) @ post" 0] de0 [of post] by simp
  with ser show ?thesis unfolding roundtrips_def by blast
qed

lemma list_roundtrip:
  assumes "\<And>x. x \<in> set xs \<Longrightarrow> roundtrips ser de x (w x)"
  shows "\<exists>bs. serialize_all ser xs = Inr bs \<and>
           (\<forall>pre post. deserialize_n de (pre @ bs @ post) (length xs) (length pre)
                          = Inr (map w xs, length pre + length bs))"
  using assms
proof (induction xs)
  case Nil
  then show ?case by simp
next
  case (Cons x xs)
  from Cons.prems [of x] obtain b1 where b1: "ser x = Inr b1"
    "\<And>pre post. de (pre @ b1 @ post) (length pre) = Inr (w x, length b1)"
    unfolding roundtrips_def by auto
  from Cons.IH Cons.prems obtain rest where rest: "serialize_all ser xs = Inr rest"
    "\<And>pre post. deserialize_n de (pre @ rest @ post) (length xs) (length pre)
                     = Inr (map w xs, length pre + length rest)"
    by auto
  have s: "serialize_all ser (x # xs) = Inr (b1 @ rest)"
    using b1(1) rest(1) by simp
  have "deserialize_n de (pre @ (b1 @ rest) @ post) (length (x # xs)) (length pre)
          = Inr (map w (x # xs), length pre + length (b1 @ rest))" for pre post
    using b1(2) [of pre "rest @ post"] rest(2) [of "pre @ b1" post] by simp
  then have d: "\<forall>pre post. deserialize_n de (pre @ (b1 @ rest) @ post) (length (x # xs)) (length pre)
          = Inr (map w (x # xs), length pre + length (b1 @ rest))"
    by blast
  from s d show ?case by blast
qed


lemma tx_roundtrip:
  assumes "wf_tx tx"
  shows "roundtrips tx_serialize tx_deserialize tx (wire_tx tx)"
proof -
  from assms have ver: "0 \<le> version tx" "version tx < 256 ^ 4"
    and lk: "0 \<le> locktime tx" "locktime tx < 256 ^ 4"
    and li: "int (length (inputs tx)) < 2 ^ 64" and lo: "int (length (outputs tx)) < 2 ^ 64"
    and wi: "list_all wf_input (inputs tx)" and wo: "list_all wf_output (outputs tx)"
    by (simp_all add: wf_tx_def is_u32_def)
  from varint_roundtrip [OF _ li] obtain ni where ni: "encode_varint (int (length (inputs tx))) = Inr ni"
    "\<And>post. decode_varint (ni @ post) 0 = Inr (int (length (inputs tx)), length ni)"
    by auto
  from varint_roundtrip [OF _ lo] obtain no where no: "encode_varint (int (length (outputs tx))) = Inr no"
    "\<And>post. decode_varint (no @ post) 0 = Inr (int (length (outputs tx)), length no)"
    by auto
  have "\<And>x. x \<in> set (inputs tx) \<Longrightarrow> roundtrips input_serialize input_deserialize x x"
    using wi by (simp add: list_all_iff input_roundtrip)
  from list_roundtrip [of "inputs tx" input_serialize input_deserialize "\<lambda>x. x", OF this]
  obtain ins where ins: "serialize_all input_serialize (inputs tx) = Inr ins"
    "\<And>pre post. deserialize_n input_deserialize (pre @ ins @ post) (length (inputs tx)) (length pre)
                     = Inr (inputs tx, length pre + length ins)"
    by auto
  have "\<And>x. x \<in> set (outputs tx) \<Longrightarrow> roundtrips output_serialize output_deserialize x x"
    using wo by (simp add: list_all_iff output_roundtrip)
  from list_roundtrip [of "outputs tx" output_serialize output_deserialize "\<lambda>x. x", OF this]
  obtain outs where outs: "serialize_all output_serialize (outputs tx) = Inr outs"
    "\<And>pre post. deserialize_n output_deserialize (pre @ outs @ post) (length (outputs tx)) (length pre)
                     = Inr (outputs tx, length pre + length outs)"
    by auto
  define v where "v = le_bytes (version tx) 4"
  define lt where "lt = le_bytes (locktime tx) 4"
  have lv: "length v = 4" and llt: "length lt = 4" by (simp_all add: v_def lt_def)
  define bs where "bs = v @ ni @ ins @ no @ outs @ lt"
  have ser: "tx_serialize tx = Inr bs"
    using ver lk ni(1) no(1) ins(1) outs(1)
    by (simp add: tx_serialize_def int_to_little_endian_ok v_def lt_def bs_def)
  have de: "tx_deserialize (pre @ bs @ post) (length pre) = Inr (wire_tx tx, length bs)" for pre post
  proof -
    let ?d = "pre @ bs @ post"
    let ?p = "length pre"
    have a: "slice ?d ?p (?p + 4) = v"
      using slice_frame [of pre v "ni @ ins @ no @ outs @ lt @ post"] lv by (simp add: bs_def)
    have b: "decode_varint ?d (?p + 4) = Inr (int (length (inputs tx)), length ni)"
      using decode_varint_skip [of "pre @ v" "ni @ ins @ no @ outs @ lt @ post" 0]
        ni(2) [of "ins @ no @ outs @ lt @ post"] lv
      by (simp add: bs_def)
    have c: "deserialize_n input_deserialize ?d (length (inputs tx)) (?p + 4 + length ni)
               = Inr (inputs tx, ?p + 4 + length ni + length ins)"
      using ins(2) [of "pre @ v @ ni" "no @ outs @ lt @ post"] lv by (simp add: bs_def add.assoc)
    have d: "decode_varint ?d (?p + 4 + length ni + length ins)
               = Inr (int (length (outputs tx)), length no)"
      using decode_varint_skip [of "pre @ v @ ni @ ins" "no @ outs @ lt @ post" 0]
        no(2) [of "outs @ lt @ post"] lv
      by (simp add: bs_def add.assoc)
    have e: "deserialize_n output_deserialize ?d (length (outputs tx))
               (?p + 4 + length ni + length ins + length no)
               = Inr (outputs tx, ?p + 4 + length ni + length ins + length no + length outs)"
      using outs(2) [of "pre @ v @ ni @ ins @ no" "lt @ post"] lv by (simp add: bs_def add.assoc)
    have f: "slice ?d (?p + 4 + length ni + length ins + length no + length outs)
                      (?p + 4 + length ni + length ins + length no + length outs + 4) = lt"
      using slice_frame [of "pre @ v @ ni @ ins @ no @ outs" lt post] lv llt
      by (simp add: bs_def add.assoc)
    have g: "little_endian_to_int v = version tx"
      unfolding v_def using ver by (rule little_endian_to_int_le_bytes)
    have h: "little_endian_to_int lt = locktime tx"
      unfolding lt_def using lk by (rule little_endian_to_int_le_bytes)
    have len: "?p + 4 + length ni + length ins + length no + length outs + 4 - ?p = length bs"
      using lv llt by (simp add: bs_def)
    have w: "\<lparr>version = version tx, inputs = inputs tx, outputs = outputs tx,
               locktime = locktime tx, txid_cache = None\<rparr> = wire_tx tx"
      by (simp add: wire_tx_def)
    show ?thesis
      unfolding tx_deserialize_def Let_def a b
      using f len by (simp add: c d e g h w)
  qed
  from ser de show ?thesis unfolding roundtrips_def by blast
qed


lemma header_roundtrip:
  assumes "wf_header h"
  shows "roundtrips header_serialize header_deserialize h (wire_header h)"
proof -
  from assms have ver: "0 \<le> hversion h" "hversion h < 256 ^ 4"
    and ts: "0 \<le> timestamp h" "timestamp h < 256 ^ 4"
    and db: "0 \<le> difficulty_bits h" "difficulty_bits h < 256 ^ 4"
    and nc: "0 \<le> nonce h" "nonce h < 256 ^ 4"
    and hp: "is_lower_hex (previous_block_hash h)" "length (previous_block_hash h) = 64"
    and hm: "is_lower_hex (merkle_root h)" "length (merkle_root h) = 64"
    by (simp_all add: wf_header_def is_u32_def)
  from bytes_fromhex_lower [OF hp(1)] hp(2) obtain pb where pb:
    "bytes_fromhex (previous_block_hash h) = Inr pb" "bytes_to_hex pb = previous_block_hash h"
    "length pb = 32"
    by auto
  from bytes_fromhex_lower [OF hm(1)] hm(2) obtain rb where rb:
    "bytes_fromhex (merkle_root h) = Inr rb" "bytes_to_hex rb = merkle_root h" "length rb = 32"
    by auto
  define v where "v = le_bytes (hversion h) 4"
  define p where "p = rev pb"
  define r where "r = rev rb"
  define t where "t = le_bytes (timestamp h) 4"
  define d where "d = le_bytes (difficulty_bits h) 4"
  define n where "n = le_bytes (nonce h) 4"
  have l: "length v = 4" "length p = 32" "length r = 32" "length t = 4" "length d = 4" "length n = 4"
    by (simp_all add: v_def p_def r_def t_def d_def n_def pb(3) rb(3))
  define bs where "bs = v @ p @ r @ t @ d @ n"
  have lbs: "length bs = 80" by (simp add: bs_def l)
  have ser: "header_serialize h = Inr bs"
    using ver ts db nc pb(1) rb(1) hp(1) hm(1)
    by (simp add: header_serialize_def int_to_little_endian_ok hex_to_bytes_lower
          v_def p_def r_def t_def d_def n_def bs_def)
  have de: "header_deserialize (pre @ bs @ post) (length pre) = Inr (wire_header h, length bs)"
    for pre post
  proof -
    let ?d = "pre @ bs @ post"
    let ?p = "length pre"
    have s1: "slice ?d ?p (?p + 4) = v"
      using slice_frame [of pre v "p @ r @ t @ d @ n @ post"] l by (simp add: bs_def)
    have s2: "slice ?d (?p + 4) (?p + 36) = p"
      using slice_frame [of "pre @ v" p "r @ t @ d @ n @ post"] l by (simp add: bs_def add.assoc)
    have s3: "slice ?d (?p + 36) (?p + 68) = r"
      using slice_frame [of "pre @ v @ p" r "t @ d @ n @ post"] l by (simp add: bs_def add.assoc)
    have s4: "slice ?d (?p + 68) (?p + 72) = t"
      using slice_frame [of "pre @ v @ p @ r" t "d @ n @ post"] l by (simp add: bs_def add.assoc)
    have s5: "slice ?d (?p + 72) (?p + 76) = d"
      using slice_frame [of "pre @ v @ p @ r @ t" d "n @ post"] l by (simp add: bs_def add.assoc)
    have s6: "slice ?d (?p + 76) (?p + 80) = n"
      using slice_frame [of "pre @ v @ p @ r @ t @ d" n post] l by (simp add: bs_def add.assoc)
    have g: "little_endian_to_int v = hversion h" "little_endian_to_int t = timestamp h"
      "little_endian_to_int d = difficulty_bits h" "little_endian_to_int n = nonce h"
      unfolding v_def t_def d_def n_def
      using ver ts db nc by (simp_all add: little_endian_to_int_le_bytes)
    have hx: "bytes_to_hex (rev p) = previous_block_hash h" "bytes_to_hex (rev r) = merkle_root h"
      by (simp_all add: p_def r_def pb(2) rb(2))
    have enough: "\<not> int (length ?d) - int ?p < 80" by (simp add: lbs)
    have w: "\<lparr>hversion = hversion h, previous_block_hash = previous_block_hash h,
               merkle_root = merkle_root h, timestamp = timestamp h,
               difficulty_bits = difficulty_bits h, nonce = nonce h, hash_cache = None\<rparr>
             = wire_header h"
      by (simp add: wire_header_def)
    show ?thesis
      unfolding header_deserialize_def s1 s2 s3 s4 s5 s6 g hx w
      using enough lbs by simp
  qed
  from ser de show ?thesis unfolding roundtrips_def by blast
qed

lemma block_roundtrip:
  assumes "wf_block b"
  shows "roundtrips serialize_block deserialize_block b (wire_block b)"
proof -
  from assms have wh: "wf_header (header b)" and lt: "int (length (transactions b)) < 2 ^ 64"
    and wt: "list_all wf_tx (transactions b)"
    by (simp_all add: wf_block_def)
  from header_roundtrip [OF wh] obtain hb where hb: "header_serialize (header b) = Inr hb"
    "\<And>pre post. header_deserialize (pre @ hb @ post) (length pre)
                     = Inr (wire_header (header b), length hb)"
    unfolding roundtrips_def by auto
  from varint_roundtrip [OF _ lt] obtain n where n:
    "encode_varint (int (length (transactions b))) = Inr n"
    "\<And>post. decode_varint (n @ post) 0 = Inr (int (length (transactions b)), length n)"
    by auto
  have "\<And>x. x \<in> set (transactions b) \<Longrightarrow> roundtrips tx_serialize tx_deserialize x (wire_tx x)"
    using wt by (simp add: list_all_iff tx_roundtrip)
  from list_roundtrip [of "transactions b" tx_serialize tx_deserialize wire_tx, OF this]
  obtain txs where txs: "serialize_all tx_serialize (transactions b) = Inr txs"
    "\<And>pre post. deserialize_n tx_deserialize (pre @ txs @ post) (length (transactions b)) (length pre)
                     = Inr (map wire_tx (transactions b), length pre + length txs)"
    by auto
  define bs where "bs = hb @ n @ txs"
  have ser: "serialize_block b = Inr bs"
    using hb(1) n(1) txs(1) by (simp add: serialize_block_def bs_def)
  have de: "deserialize_block (pre @ bs @ post) (length pre) = Inr (wire_block b, length bs)"
    for pre post
  proof -
    let ?d = "pre @ bs @ post"
    let ?p = "length pre"
    have a: "header_deserialize ?d ?p = Inr (wire_header (header b), length hb)"
      using hb(2) [of pre "n @ txs @ post"] by (simp add: bs_def)
    have c: "decode_varint ?d (?p + length hb) = Inr (int (length (transactions b)), length n)"
      using decode_varint_skip [of "pre @ hb" "n @ txs @ post" 0] n(2) [of "txs @ post"]
      by (simp add: bs_def)
    have d: "deserialize_n tx_deserialize ?d (length (transactions b)) (?p + length hb + length n)
               = Inr (map wire_tx (transactions b), ?p + length hb + length n + length txs)"
      using txs(2) [of "pre @ hb @ n" post] by (simp add: bs_def add.assoc)
    have len: "?p + length hb + length n + length txs - ?p = length bs"
      by (simp add: bs_def)
    show ?thesis
      unfolding deserialize_block_def a
      using len by (simp add: c d wire_block_def)
  qed
  from ser de show ?thesis unfolding roundtrips_def by blast
qed

lemma roundtrips_at_start:
  assumes "roundtrips ser de x y"
  shows "\<exists>bs. ser x = Inr bs \<and> de bs 0 = Inr (y, length bs)"
proof -
  from assms obtain bs where bs: "ser x = Inr bs"
    "\<And>pre post. de (pre @ bs @ post) (length pre) = Inr (y, length bs)"
    unfolding roundtrips_def by auto
  from bs(2) [of "[]" "[]"] have "de bs 0 = Inr (y, length bs)" by simp
  with bs(1) show ?thesis by blast
qed

text \<open>
  Claim C8, as stated, at a transaction input whose signature script is the space-separated
  pair that the validator parses: every integer field fits its width and serialization
  succeeds, but \<open>bytes.fromhex\<close> skips the space, so deserializing the bytes yields the
  script \<open>abcd\<close> and not the script \<open>ab cd\<close> of the value that was serialized.
\<close>

theorem serialization_roundtrip_counterexample:
  "input_serialize spaced_script_input = Inr spaced_script_bytes \<and>
   input_deserialize spaced_script_bytes 0
     = Inr (spaced_script_input\<lparr>signature_script := ''abcd''\<rparr>, length spaced_script_bytes) \<and>
   spaced_script_input\<lparr>signature_script := ''abcd''\<rparr> \<noteq> spaced_script_input"
proof -
  have a: "input_serialize spaced_script_input = Inr spaced_script_bytes"
    by code_simp
  have b: "input_deserialize spaced_script_bytes 0
     = Inr (spaced_script_input\<lparr>signature_script := ''abcd''\<rparr>, length spaced_script_bytes)"
    by code_simp
  have c: "spaced_script_input\<lparr>signature_script := ''abcd''\<rparr> \<noteq> spaced_script_input"
    by (simp add: spaced_script_input_def)
  from a b c show ?thesis by blast
qed

text \<open>
  Claim C8, amended. For every block header, transaction input, transaction output,
  transaction or block whose integer fields fit their wire widths, whose hashes are 64
  lowercase hexadecimal digits and whose scripts are lowercase hexadecimal strings of even
  length (no whitespace, prefix or uppercase digit), and whose list and script lengths fit
  a varint, serialization succeeds and deserializing the bytes yields a value equal to the
  original in every serialized field (the caches \<open>_txid\<close>, \<open>_hash\<close> and the height
  \<open>_height\<close> are unset) and reports exactly the number of serialized bytes as consumed.
\<close>

theorem serialization_roundtrip:
  "(wf_header h \<longrightarrow>
      (\<exists>bs. header_serialize h = Inr bs \<and>
            header_deserialize bs 0 = Inr (wire_header h, length bs))) \<and>
   (wf_input inp \<longrightarrow>
      (\<exists>bs. input_serialize inp = Inr bs \<and> input_deserialize bs 0 = Inr (inp, length bs))) \<and>
   (wf_output out \<longrightarrow>
      (\<exists>bs. output_serialize out = Inr bs \<and> output_deserialize bs 0 = Inr (out, length bs))) \<and>
   (wf_tx tx \<longrightarrow>
      (\<exists>bs. tx_serialize tx = Inr bs \<and> tx_deserialize bs 0 = Inr (wire_tx tx, length bs))) \<and>
   (wf_block b \<longrightarrow>
      (\<exists>bs. serialize_block b = Inr bs \<and>
            deserialize_block bs 0 = Inr (wire_block b, length bs)))"
  using header_roundtrip [THEN roundtrips_at_start, of h]
    input_roundtrip [THEN roundtrips_at_start, of inp]
    output_roundtrip [THEN roundtrips_at_start, of out]
    tx_roundtrip [THEN roundtrips_at_start, of tx]
    block_roundtrip [THEN roundtrips_at_start, of b]
  by blast

theorem serialization_roundtrip_witness:
  "wf_header sample_header \<and> wf_input sample_input \<and> wf_output sample_output \<and>
   wf_tx sample_tx \<and> wf_block sample_block \<and>
   (\<exists>bs. header_serialize sample_header = Inr bs \<and>
         header_deserialize bs 0 = Inr (wire_header sample_header, length bs)) \<and>
   (\<exists>bs. input_serialize sample_input = Inr bs \<and>
         input_deserialize bs 0 = Inr (sample_input, length bs)) \<and>
   (\<exists>bs. output_serialize sample_output = Inr bs \<and>
         output_deserialize bs 0 = Inr (sample_output, length bs)) \<and>
   (\<exists>bs. tx_serialize sample_tx = Inr bs \<and>
         tx_deserialize bs 0 = Inr (wire_tx sample_tx, length bs)) \<and>
   (\<exists>bs. serialize_block sample_block = Inr bs \<and>
         deserialize_block bs 0 = Inr (wire_block sample_block, length bs))"
proof -
  have h: "wf_header sample_header" by code_simp
  have i: "wf_input sample_input" by code_simp
  have o: "wf_output sample_output" by code_simp
  have t: "wf_tx sample_tx" by code_simp
  have b: "wf_block sample_block" by code_simp
  from h i o t b
    serialization_roundtrip [of sample_header sample_input sample_output sample_tx sample_block]
  show ?thesis by blast
qed

section \<open>The mempool\<close>

subsection \<open>The first-seen rule\<close>









lemma clear_confirmed_reachable:
  "mempool_reachable H m \<Longrightarrow> clear_confirmed_txs H txs m = Inr (n, m') \<Longrightarrow> mempool_reachable H m'"
proof (induction txs arbitrary: m n)
  case Nil
  then show ?case by simp
next
  case (Cons tx rest)
  show ?case
  proof (cases "tx_is_coinbase tx")
    case True
    with Cons show ?thesis by simp
  next
    case False
    with Cons.prems(2) obtain txid r m1 k where s: "tx_txid H tx = Inr txid"
      "remove_transaction txid m = (r, m1)" "clear_confirmed_txs H rest m1 = Inr (k, m')"
      by (auto split: sum.splits prod.splits)
    from Cons.prems(1) s(2) have "mempool_reachable H m1" by (rule reach_remove)
    from Cons.IH [OF this s(3)] show ?thesis .
  qed
qed




end
